theory Spec2Isabelle
  imports Main "HOL-Library.Sublist"
begin

section \<open>The SRT subtitle parser (\<^verbatim>\<open>src/srt_parser.py\<close>)\<close>

text \<open>
  The development embeds \<^verbatim>\<open>parse_srt\<close> and the string and regular-expression
  primitives of the Python library it calls. A Python \<^verbatim>\<open>str\<close> is a sequence of
  Unicode code points, and is modelled by a list of integers, one per code point. The
  callers hand \<^verbatim>\<open>parse_srt\<close> text decoded from UTF-8, so any code point can occur.
\<close>

type_synonym str = "int list"

text \<open>
  \<open>cp c\<close> is \<^verbatim>\<open>ord(c)\<close> of a character of the theory's own alphabet, and \<open>lit\<close>
  turns a string literal into the \<^verbatim>\<open>str\<close> with the same characters.
\<close>

definition cp :: "char \<Rightarrow> int" where
  "cp c = of_char c"

definition lit :: "string \<Rightarrow> str" where
  "lit s = map cp s"

declare cp_def [simp] lit_def [simp]

subsection \<open>Character classes\<close>

text \<open>
  \<^verbatim>\<open>str.strip()\<close> and the pattern \<^verbatim>\<open>\s\<close> use the same test
  (\<^verbatim>\<open>str.isspace\<close>). It holds of TAB, LF, VT, FF, CR, the four separators
  U+001C..U+001F, SPACE, NEL (U+0085), NBSP (U+00A0), U+1680, U+2000..U+200A, U+2028,
  U+2029, U+202F, U+205F and U+3000.
\<close>

definition isspace :: "int \<Rightarrow> bool" where
  "isspace c \<longleftrightarrow>
     (0x09 \<le> c \<and> c \<le> 0x0D) \<or> (0x1C \<le> c \<and> c \<le> 0x20) \<or> c = 0x85 \<or> c = 0xA0 \<or>
     c = 0x1680 \<or> (0x2000 \<le> c \<and> c \<le> 0x200A) \<or> c = 0x2028 \<or> c = 0x2029 \<or>
     c = 0x202F \<or> c = 0x205F \<or> c = 0x3000"

text \<open>
  The pattern \<^verbatim>\<open>\d\<close> is compiled without \<^verbatim>\<open>re.ASCII\<close>, so on a \<^verbatim>\<open>str\<close>
  it holds of every Unicode decimal digit (\<^verbatim>\<open>str.isdecimal\<close>), not of the ten
  ASCII digits only. The decimal digits come in runs of ten, from the zero to the nine of
  a script; \<open>digit_zeros\<close> lists the zeros. The table is the one of Unicode 14.0, which
  CPython 3.11 carries; a later version adds runs. What is proved below uses three facts
  about the table only: no decimal digit lies below U+0030, none is whitespace, and the
  colon is none.
\<close>

definition digit_zeros :: "int list" where
  "digit_zeros =
    [0x0030, 0x0660, 0x06F0, 0x07C0, 0x0966, 0x09E6, 0x0A66, 0x0AE6, 0x0B66, 0x0BE6,
     0x0C66, 0x0CE6, 0x0D66, 0x0DE6, 0x0E50, 0x0ED0, 0x0F20, 0x1040, 0x1090, 0x17E0,
     0x1810, 0x1946, 0x19D0, 0x1A80, 0x1A90, 0x1B50, 0x1BB0, 0x1C40, 0x1C50, 0xA620,
     0xA8D0, 0xA900, 0xA9D0, 0xA9F0, 0xAA50, 0xABF0, 0xFF10, 0x104A0, 0x10D30, 0x11066,
     0x110F0, 0x11136, 0x111D0, 0x112F0, 0x11450, 0x114D0, 0x11650, 0x116C0, 0x11730,
     0x118E0, 0x11950, 0x11C50, 0x11D50, 0x11DA0, 0x16A60, 0x16AC0, 0x16B50, 0x1D7CE,
     0x1D7D8, 0x1D7E2, 0x1D7EC, 0x1D7F6, 0x1E140, 0x1E2F0, 0x1E950, 0x1FBF0]"

definition isdigit :: "int \<Rightarrow> bool" where
  "isdigit c \<longleftrightarrow> (\<exists>z\<in>set digit_zeros. z \<le> c \<and> c \<le> z + 9)"

subsection \<open>String primitives\<close>

text \<open>\<^verbatim>\<open>s.strip()\<close>: drop the leading and the trailing whitespace.\<close>

definition lstrip :: "str \<Rightarrow> str" where
  "lstrip s = dropWhile isspace s"

definition rstrip :: "str \<Rightarrow> str" where
  "rstrip s = rev (dropWhile isspace (rev s))"

definition strip :: "str \<Rightarrow> str" where
  "strip s = rstrip (lstrip s)"

text \<open>
  \<^verbatim>\<open>s.replace(old, new)\<close>: every occurrence of \<open>old\<close> is replaced, scanning from
  the left and resuming after each replaced occurrence. With an empty \<open>old\<close> Python
  inserts \<open>new\<close> before every character and at the end.
\<close>

function replace :: "str \<Rightarrow> str \<Rightarrow> str \<Rightarrow> str" where
  "replace s old new =
     (if old = [] then new @ concat (map (\<lambda>c. c # new) s)
      else if s = [] then []
      else if prefix old s then new @ replace (drop (length old) s) old new
      else hd s # replace (tl s) old new)"
  by pat_completeness auto
termination
  by (relation "measure (\<lambda>(s, old, new). length s)") auto

declare replace.simps [simp del]

text \<open>
  The errors the library calls of \<^verbatim>\<open>parse_srt\<close> can raise: \<^verbatim>\<open>str.split\<close>
  raises \<^verbatim>\<open>ValueError\<close> on an empty separator, and \<^verbatim>\<open>group\<close> on
  \<^verbatim>\<open>None\<close> (the result of a failed search) raises \<^verbatim>\<open>AttributeError\<close>,
  on a group number the pattern does not have \<^verbatim>\<open>IndexError\<close>.
\<close>

datatype error = ValueError | AttributeError | IndexError

text \<open>
  \<^verbatim>\<open>s.split(sep)\<close>: the pieces between the occurrences of \<open>sep\<close>, found from the
  left without overlap. The result always has at least one piece.
\<close>

function split_at :: "str \<Rightarrow> str \<Rightarrow> str \<Rightarrow> str list" where
  "split_at sep cur s =
     (if sep = [] \<or> s = [] then [cur]
      else if prefix sep s then cur # split_at sep [] (drop (length sep) s)
      else split_at sep (cur @ [hd s]) (tl s))"
  by pat_completeness auto
termination
  by (relation "measure (\<lambda>(sep, cur, s). length s)") auto

declare split_at.simps [simp del]

definition split :: "str \<Rightarrow> str \<Rightarrow> error + str list" where
  "split s sep = (if sep = [] then Inl ValueError else Inr (split_at sep [] s))"

text \<open>\<^verbatim>\<open>sep.join(xs)\<close>.\<close>

fun join :: "str \<Rightarrow> str list \<Rightarrow> str" where
  "join sep [] = []"
| "join sep [x] = x"
| "join sep (x # y # ys) = x @ sep @ join sep (y # ys)"

subsection \<open>The two regular expressions\<close>

text \<open>
  A sequence of single-character classes, matched at the head of a string. The timestamp
  half \<^verbatim>\<open>\d{2}:\d{2}:\d{2}[,.]\d{3}\<close> is such a sequence of twelve classes.
\<close>

fun match_seq :: "(int \<Rightarrow> bool) list \<Rightarrow> str \<Rightarrow> bool" where
  "match_seq [] s = True"
| "match_seq (p # ps) [] = False"
| "match_seq (p # ps) (c # cs) = (p c \<and> match_seq ps cs)"

definition stamp :: "(int \<Rightarrow> bool) list" where
  "stamp = [isdigit, isdigit, (\<lambda>c. c = cp (CHR '':'')),
            isdigit, isdigit, (\<lambda>c. c = cp (CHR '':'')),
            isdigit, isdigit, (\<lambda>c. c = cp (CHR '','') \<or> c = cp (CHR ''.'')),
            isdigit, isdigit, isdigit]"

text \<open>
  A match object of \<^verbatim>\<open>time_pattern\<close> is the list of its groups: the whole match,
  group 1 and group 2. \<^verbatim>\<open>m.group(n)\<close> raises \<^verbatim>\<open>IndexError\<close> for a group
  the pattern does not have, and \<^verbatim>\<open>AttributeError\<close> when \<open>m\<close> is \<^verbatim>\<open>None\<close>.
\<close>

type_synonym match = "str list"

definition group :: "match option \<Rightarrow> nat \<Rightarrow> error + str" where
  "group m n =
     (case m of
        None \<Rightarrow> Inl AttributeError
      | Some gs \<Rightarrow> if n < length gs then Inr (gs ! n) else Inl IndexError)"

text \<open>
  \<^verbatim>\<open>time_pattern\<close> anchored at the head of \<open>s\<close>:
  \<^verbatim>\<open>(\d{2}:\d{2}:\d{2}[,.]\d{3})\s*-->\s*(\d{2}:\d{2}:\d{2}[,.]\d{3})\<close>.
  Both \<^verbatim>\<open>\s*\<close> are greedy. Giving back whitespace never helps the match, because
  the character that must follow (\<open>-\<close>, or a digit) is not whitespace; so the longest
  run of whitespace is the only candidate.
\<close>

definition match_at :: "str \<Rightarrow> match option" where
  "match_at s =
     (if match_seq stamp s then
        (let r1 = dropWhile isspace (drop 12 s) in
         if prefix (lit ''-->'') r1 then
           (let r2 = dropWhile isspace (drop 3 r1) in
            if match_seq stamp r2
            then Some [take (length s - length (drop 12 r2)) s, take 12 s, take 12 r2]
            else None)
         else None)
      else None)"

text \<open>\<^verbatim>\<open>time_pattern.search(line)\<close>: the match at the leftmost position that has one.\<close>

fun search :: "str \<Rightarrow> match option" where
  "search [] = match_at []"
| "search (c # cs) = (case match_at (c # cs) of Some m \<Rightarrow> Some m | None \<Rightarrow> search cs)"

text \<open>
  The tag pattern \<^verbatim>\<open><[^>]+>\<close> anchored at the head of \<open>s\<close>; the result is the
  text after the match. \<^verbatim>\<open>[^>]+\<close> is greedy and takes every character up to the next
  \<open>>\<close> (a newline or a further \<open><\<close> included); a shorter run is never followed by
  \<open>>\<close>.
\<close>

definition tag_at :: "str \<Rightarrow> str option" where
  "tag_at s =
     (case s of
        [] \<Rightarrow> None
      | c # cs \<Rightarrow>
          if c = cp (CHR ''<'') then
            (let body = takeWhile (\<lambda>x. x \<noteq> cp (CHR ''>'')) cs;
                 rest = dropWhile (\<lambda>x. x \<noteq> cp (CHR ''>'')) cs
             in if body \<noteq> [] \<and> rest \<noteq> [] then Some (tl rest) else None)
          else None)"

lemma tag_at_shorter: "tag_at s = Some r \<Longrightarrow> length r < length s"
proof -
  assume a: "tag_at s = Some r"
  then obtain cs where s: "s = cp (CHR ''<'') # cs"
    and r: "r = tl (dropWhile (\<lambda>x. x \<noteq> cp (CHR ''>'')) cs)"
    by (auto simp: tag_at_def Let_def split: list.splits if_splits)
  have "length (dropWhile (\<lambda>x. x \<noteq> cp (CHR ''>'')) cs) \<le> length cs"
    by (rule length_dropWhile_le)
  then show ?thesis using s r by simp
qed

text \<open>
  \<^verbatim>\<open>re.sub(r'<[^>]+>', '', s)\<close>: every match is deleted, scanning from the left and
  resuming after each match.
\<close>

function sub_tags :: "str \<Rightarrow> str" where
  "sub_tags s =
     (if s = [] then []
      else case tag_at s of
             Some r \<Rightarrow> sub_tags r
           | None \<Rightarrow> hd s # sub_tags (tl s))"
  by pat_completeness auto
termination
  by (relation "measure length") (auto simp: tag_at_shorter)

declare sub_tags.simps [simp del]

subsection \<open>\<^verbatim>\<open>parse_srt\<close>\<close>

text \<open>One output dictionary, with the keys \<^verbatim>\<open>'start'\<close>, \<^verbatim>\<open>'end'\<close>, \<^verbatim>\<open>'text'\<close>.\<close>

record subtitle =
  sub_start :: str
  sub_end :: str
  sub_text :: str

text \<open>Line 9: the line endings CRLF and CR become LF.\<close>

definition normalize_line_endings :: "str \<Rightarrow> str" where
  "normalize_line_endings srt_content =
     replace (replace srt_content [0x0D, 0x0A] [0x0A]) [0x0D] [0x0A]"

text \<open>
  Lines 28 to 37: the scan for the timestamp line. The result is the pair
  \<^verbatim>\<open>(time_match, text_lines)\<close> at the end of the inner loop; \<^verbatim>\<open>lines[i+1:]\<close> is
  what follows the matching line.
\<close>

fun find_time :: "str list \<Rightarrow> match option \<times> str list" where
  "find_time [] = (None, [])"
| "find_time (line # rest) =
     (case search line of
        Some m \<Rightarrow> (Some m, rest)
      | None \<Rightarrow> find_time rest)"

text \<open>Lines 44 to 49: the text lines joined and cleaned.\<close>

definition clean_text :: "str list \<Rightarrow> str" where
  "clean_text text_lines =
     (let full_text = join (lit '' '') text_lines;
          clean = strip (sub_tags full_text)
      in strip (replace clean (lit ''- '') []))"

text \<open>
  Lines 22 to 56: what the loop body does with the lines of one block. The list
  \<^verbatim>\<open>parsed_subs\<close> is passed in and returned, with the new entry appended if there
  is one.
\<close>

definition parse_lines :: "str list \<Rightarrow> subtitle list \<Rightarrow> error + subtitle list" where
  "parse_lines lines parsed_subs =
     (if length lines \<ge> 3 then
        (case find_time lines of (time_match, text_lines) \<Rightarrow>
           if time_match \<noteq> None \<and> text_lines \<noteq> [] then
             (case group time_match 1 of
                Inl e \<Rightarrow> Inl e
              | Inr g1 \<Rightarrow>
                 (case group time_match 2 of
                    Inl e \<Rightarrow> Inl e
                  | Inr g2 \<Rightarrow>
                      (let start = replace g1 (lit ''.'') (lit '','');
                           end = replace g2 (lit ''.'') (lit '','');
                           text = clean_text text_lines
                       in if text \<noteq> []
                          then Inr (parsed_subs @
                                 [\<lparr>sub_start = start, sub_end = end, sub_text = text\<rparr>])
                          else Inr parsed_subs)))
           else Inr parsed_subs)
      else Inr parsed_subs)"

text \<open>Lines 20 to 56: the body of the loop over the blocks, line 21 included.\<close>

definition parse_block :: "str \<Rightarrow> subtitle list \<Rightarrow> error + subtitle list" where
  "parse_block block parsed_subs =
     (case split (strip block) [0x0A] of
        Inl e \<Rightarrow> Inl e
      | Inr lines \<Rightarrow> parse_lines lines parsed_subs)"

fun parse_blocks :: "str list \<Rightarrow> subtitle list \<Rightarrow> error + subtitle list" where
  "parse_blocks [] parsed_subs = Inr parsed_subs"
| "parse_blocks (block # blocks) parsed_subs =
     (case parse_block block parsed_subs of
        Inl e \<Rightarrow> Inl e
      | Inr parsed_subs' \<Rightarrow> parse_blocks blocks parsed_subs')"

definition parse_srt :: "str \<Rightarrow> error + subtitle list" where
  "parse_srt srt_content =
     (case split (strip (normalize_line_endings srt_content)) [0x0A, 0x0A] of
        Inl e \<Rightarrow> Inl e
      | Inr blocks \<Rightarrow> parse_blocks blocks [])"

subsection \<open>The vocabulary of the specification\<close>

text \<open>
  A clock value with its fraction: twelve characters that match the timestamp half of
  \<^verbatim>\<open>time_pattern\<close>, with either separator.
\<close>

definition is_stamp :: "str \<Rightarrow> bool" where
  "is_stamp t \<longleftrightarrow> length t = 12 \<and> match_seq stamp t"

text \<open>The output format \<^verbatim>\<open>HH:MM:SS,mmm\<close>: as above, with the comma only.\<close>

definition comma_stamp :: "(int \<Rightarrow> bool) list" where
  "comma_stamp = [isdigit, isdigit, (\<lambda>c. c = cp (CHR '':'')),
                  isdigit, isdigit, (\<lambda>c. c = cp (CHR '':'')),
                  isdigit, isdigit, (\<lambda>c. c = cp (CHR '','')),
                  isdigit, isdigit, isdigit]"

definition hh_mm_ss_mmm :: "str \<Rightarrow> bool" where
  "hh_mm_ss_mmm t \<longleftrightarrow> length t = 12 \<and> match_seq comma_stamp t"

text \<open>What the data model asks of an emitted entry.\<close>

definition well_formed :: "subtitle \<Rightarrow> bool" where
  "well_formed e \<longleftrightarrow> hh_mm_ss_mmm (sub_start e) \<and> hh_mm_ss_mmm (sub_end e) \<and>
     cp (CHR ''.'') \<notin> set (sub_start e) \<and> cp (CHR ''.'') \<notin> set (sub_end e) \<and> sub_text e \<noteq> []"

text \<open>
  The timestamp pattern in the words of the specification: a clock value with its
  fraction, any amount of whitespace, the arrow, any amount of whitespace, a second
  clock value with its fraction. \<open>spaces_then P\<close> holds of a string that has some run of
  whitespace (possibly none) followed by a string of which \<open>P\<close> holds; the run need not
  be the longest one.
\<close>

fun spaces_then :: "(str \<Rightarrow> bool) \<Rightarrow> str \<Rightarrow> bool" where
  "spaces_then P [] = P []"
| "spaces_then P (c # cs) = (P (c # cs) \<or> (isspace c \<and> spaces_then P cs))"

definition pattern_here :: "str \<Rightarrow> bool" where
  "pattern_here s \<longleftrightarrow>
     is_stamp (take 12 s) \<and>
     spaces_then
       (\<lambda>r. prefix (lit ''-->'') r \<and> spaces_then (\<lambda>q. is_stamp (take 12 q)) (drop 3 r))
       (drop 12 s)"

text \<open>A line matches the pattern when the pattern is found at some position of it.\<close>

fun matches_time_pattern :: "str \<Rightarrow> bool" where
  "matches_time_pattern [] = pattern_here []"
| "matches_time_pattern (c # cs) = (pattern_here (c # cs) \<or> matches_time_pattern cs)"

text \<open>
  An HTML-style tag in the words of the specification: \<open><\<close>, then one or more
  characters other than \<open>>\<close>, then \<open>>\<close>. \<open>has_tag s\<close> says that \<open>s\<close> has a
  substring of that form.
\<close>

fun tag_body :: "str \<Rightarrow> bool" where
  "tag_body [] = False"
| "tag_body (c # cs) = (c \<noteq> cp (CHR ''>'') \<and> (prefix (lit ''>'') cs \<or> tag_body cs))"

fun has_tag :: "str \<Rightarrow> bool" where
  "has_tag [] = False"
| "has_tag (c # cs) = ((c = cp (CHR ''<'') \<and> tag_body cs) \<or> has_tag cs)"

text \<open>\<open>has_dash_space s\<close>: a dash followed by a space occurs in \<open>s\<close>.\<close>

fun has_dash_space :: "str \<Rightarrow> bool" where
  "has_dash_space (a # b # cs) = ((a = cp (CHR ''-'') \<and> b = cp (CHR '' '')) \<or> has_dash_space (b # cs))"
| "has_dash_space _ = False"

text \<open>
  \<open>has_blank_line s\<close>: two line feeds in a row occur in \<open>s\<close>, which is the separator
  of line 12.
\<close>

fun has_blank_line :: "str \<Rightarrow> bool" where
  "has_blank_line (a # b # cs) =
     ((a = 0x0A \<and> b = 0x0A) \<or> has_blank_line (b # cs))"
| "has_blank_line _ = False"


section \<open>Properties\<close>

subsection \<open>The string primitives\<close>


lemma replace_Nil: "old \<noteq> [] \<Longrightarrow> replace [] old new = []"
  by (simp add: replace.simps)

lemma replace_hit:
  "old \<noteq> [] \<Longrightarrow> prefix old (c # cs) \<Longrightarrow>
   replace (c # cs) old new = new @ replace (drop (length old) (c # cs)) old new"
  by (subst replace.simps) simp

lemma replace_miss:
  "old \<noteq> [] \<Longrightarrow> \<not> prefix old (c # cs) \<Longrightarrow>
   replace (c # cs) old new = c # replace cs old new"
  by (subst replace.simps) simp

lemma replace_char: "replace s [a] [b] = map (\<lambda>c. if c = a then b else c) s"
proof (induction s)
  case Nil
  show ?case by (simp add: replace_Nil)
next
  case (Cons c cs)
  show ?case
  proof (cases "c = a")
    case True
    then have "prefix [a] (c # cs)" by simp
    then show ?thesis using Cons True by (simp add: replace_hit)
  next
    case False
    then have "\<not> prefix [a] (c # cs)" by simp
    then show ?thesis using Cons False by (simp add: replace_miss)
  qed
qed

lemma replace_absent:
  assumes "old \<noteq> []" and "hd old \<notin> set s"
  shows "replace s old new = s"
  using assms(2)
proof (induction s)
  case Nil
  show ?case using assms(1) by (simp add: replace_Nil)
next
  case (Cons c cs)
  from assms(1) obtain o1 os where old: "old = o1 # os" by (cases old) auto
  with Cons.prems have "o1 \<noteq> c" by auto
  then have "\<not> prefix old (c # cs)" using old by simp
  then show ?case using Cons assms(1) by (simp add: replace_miss)
qed

lemma split_nonempty_sep: "sep \<noteq> [] \<Longrightarrow> split s sep = Inr (split_at sep [] s)"
  by (simp add: split_def)

lemma match_seq_length: "match_seq ps s \<Longrightarrow> length ps \<le> length s"
  by (induction ps s rule: match_seq.induct) auto

lemma match_seq_take: "match_seq ps s \<Longrightarrow> match_seq ps (take (length ps) s)"
  by (induction ps s rule: match_seq.induct) auto

lemma match_seq_append: "match_seq ps s \<Longrightarrow> match_seq ps (s @ t)"
  by (induction ps s rule: match_seq.induct) auto

subsection \<open>Timestamps and the shape of the result\<close>

lemma length_stamp: "length stamp = 12"
  by (simp add: stamp_def)

lemma digit_zeros_ranges:
  "\<forall>z\<in>set digit_zeros.
     z = 0x30 \<or> (0x660 \<le> z \<and> z + 9 < 0x1680) \<or> (0x1680 < z \<and> z + 9 < 0x2000) \<or> 0x3000 < z"
  by (simp add: digit_zeros_def)

lemma isdigit_ranges:
  assumes "isdigit c"
  shows "(0x30 \<le> c \<and> c \<le> 0x39) \<or> (0x660 \<le> c \<and> c < 0x1680) \<or>
         (0x1680 < c \<and> c < 0x2000) \<or> 0x3000 < c"
proof -
  from assms obtain z where z: "z \<in> set digit_zeros" "z \<le> c" "c \<le> z + 9"
    by (auto simp: isdigit_def)
  from digit_zeros_ranges z(1)
  have "z = 0x30 \<or> (0x660 \<le> z \<and> z + 9 < 0x1680) \<or> (0x1680 < z \<and> z + 9 < 0x2000) \<or> 0x3000 < z"
    by (rule bspec)
  with z(2,3) show ?thesis by arith
qed

lemma isdigit_not_dot: "isdigit c \<Longrightarrow> c \<noteq> cp (CHR ''.'')"
  using isdigit_ranges [of c] by auto

lemma dot_not_digit: "\<not> isdigit (cp (CHR ''.''))"
  using isdigit_not_dot by blast

lemma match_seq_map:
  "list_all2 (\<lambda>p q. \<forall>c. p c \<longrightarrow> q (f c)) ps qs \<Longrightarrow> match_seq ps s \<Longrightarrow>
   match_seq qs (map f s)"
proof (induction ps s arbitrary: qs rule: match_seq.induct)
  case (1 s)
  then show ?case by simp
next
  case (2 p ps)
  then show ?case by simp
next
  case (3 p ps c cs)
  then show ?case by (auto simp: list_all2_Cons1)
qed

lemma stamp_prefix: "match_seq stamp s \<Longrightarrow> is_stamp (take 12 s)"
  using match_seq_length [of stamp s] match_seq_take [of stamp s]
  by (simp add: is_stamp_def length_stamp)

lemma stamp_comma:
  assumes "is_stamp g"
  shows "hh_mm_ss_mmm (replace g (lit ''.'') (lit '',''))"
proof -
  let ?f = "\<lambda>c::int. if c = 0x2E then 0x2C else c"
  have "list_all2 (\<lambda>p q. \<forall>c. p c \<longrightarrow> q (?f c)) stamp comma_stamp"
    by (simp add: stamp_def comma_stamp_def dot_not_digit [simplified])
  then have "match_seq comma_stamp (map ?f g)"
    using assms by (auto simp: is_stamp_def intro: match_seq_map)
  then show ?thesis using assms by (simp add: hh_mm_ss_mmm_def replace_char is_stamp_def)
qed

lemma no_dot_after_replace: "cp (CHR ''.'') \<notin> set (replace g (lit ''.'') (lit '',''))"
  by (auto simp: replace_char)

lemma match_at_groups:
  assumes "match_at s = Some m"
  shows "length m = 3 \<and> is_stamp (m ! 1) \<and> is_stamp (m ! 2)"
proof -
  let ?r2 = "dropWhile isspace (drop 3 (dropWhile isspace (drop 12 s)))"
  from assms have s: "match_seq stamp s" and r: "match_seq stamp ?r2"
    and m: "m = [take (length s - length (drop 12 ?r2)) s, take 12 s, take 12 ?r2]"
    by (auto simp: match_at_def Let_def split: if_splits)
  show ?thesis using stamp_prefix [OF s] stamp_prefix [OF r] by (simp add: m)
qed

lemma search_groups:
  "search l = Some m \<Longrightarrow> length m = 3 \<and> is_stamp (m ! 1) \<and> is_stamp (m ! 2)"
proof (induction l)
  case Nil
  then show ?case using match_at_groups [of "[]" m] by simp
next
  case (Cons c cs)
  then show ?case using match_at_groups [of "c # cs" m]
    by (simp split: option.splits)
qed

lemma find_time_groups:
  "find_time ls = (Some m, t) \<Longrightarrow> length m = 3 \<and> is_stamp (m ! 1) \<and> is_stamp (m ! 2)"
proof (induction ls)
  case Nil
  then show ?case by simp
next
  case (Cons l ls)
  then show ?case using search_groups [of l m]
    by (simp split: option.splits)
qed

lemma parse_lines_shape:
  "\<exists>es. length es \<le> 1 \<and> (\<forall>acc. parse_lines ls acc = Inr (acc @ es)) \<and>
     (\<forall>e\<in>set es. well_formed e)"
proof (cases "find_time ls")
  case (Pair tm tl)
  show ?thesis
  proof (cases "3 \<le> length ls \<and> tm \<noteq> None \<and> tl \<noteq> [] \<and> clean_text tl \<noteq> []")
    case False
    then have "\<forall>acc. parse_lines ls acc = Inr (acc @ [])"
      using Pair find_time_groups [of ls _ tl]
      by (auto simp: parse_lines_def group_def Let_def)
    then show ?thesis by (intro exI [of _ "[]"]) simp
  next
    case True
    then obtain m where m: "tm = Some m" by auto
    from find_time_groups [of ls m tl] Pair m
    have g: "length m = 3" "is_stamp (m ! 1)" "is_stamp (m ! 2)" by auto
    let ?e = "\<lparr>sub_start = replace (m ! 1) (lit ''.'') (lit '',''),
               sub_end = replace (m ! 2) (lit ''.'') (lit '',''), sub_text = clean_text tl\<rparr>"
    have "\<forall>acc. parse_lines ls acc = Inr (acc @ [?e])"
      using True Pair m g by (simp add: parse_lines_def group_def Let_def)
    moreover have "well_formed ?e"
      using True g
      by (simp add: well_formed_def stamp_comma [simplified] no_dot_after_replace [simplified])
    ultimately show ?thesis by (intro exI [of _ "[?e]"]) simp
  qed
qed

lemma parse_block_shape:
  "\<exists>es. length es \<le> 1 \<and> (\<forall>acc. parse_block b acc = Inr (acc @ es)) \<and>
     (\<forall>e\<in>set es. well_formed e)"
  using parse_lines_shape [of "split_at [0x0A] [] (strip b)"]
  by (simp add: parse_block_def split_nonempty_sep)

lemma parse_blocks_shape:
  "\<exists>es. (\<forall>acc. parse_blocks bs acc = Inr (acc @ es)) \<and> (\<forall>e\<in>set es. well_formed e)"
proof (induction bs)
  case Nil
  show ?case by (intro exI [of _ "[]"]) simp
next
  case (Cons b bs)
  from parse_block_shape [of b] obtain es1
    where 1: "\<And>acc. parse_block b acc = Inr (acc @ es1)" "\<forall>e\<in>set es1. well_formed e"
    by blast
  from Cons obtain es2
    where 2: "\<And>acc. parse_blocks bs acc = Inr (acc @ es2)" "\<forall>e\<in>set es2. well_formed e"
    by blast
  show ?case using 1 2 by (intro exI [of _ "es1 @ es2"]) auto
qed

lemma parse_srt_shape:
  "\<exists>es. parse_srt s = Inr es \<and> (\<forall>e\<in>set es. well_formed e)"
  using parse_blocks_shape
    [of "split_at [0x0A, 0x0A] [] (strip (normalize_line_endings s))"]
  by (auto simp: parse_srt_def split_nonempty_sep)

subsection \<open>A block without its index line\<close>


subsection \<open>No exception leaves the parser\<close>

text \<open>
  Claim C2. For every input string \<^verbatim>\<open>parse_srt\<close> returns a list (possibly empty)
  and raises nothing: no call of \<^verbatim>\<open>split\<close> has an empty separator, and
  \<^verbatim>\<open>group\<close> is reached only with a match object and asks for groups 1 and 2 only.
  A block never fails either: whatever list has been collected so far, the loop body
  returns it, with at most the block's own entry appended, so a block that cannot be
  parsed is skipped and the loop goes on.
\<close>

theorem parse_srt_never_raises:
  "(\<exists>parsed_subs. parse_srt srt_content = Inr parsed_subs) \<and>
   (\<exists>es. length es \<le> 1 \<and> (\<forall>parsed_subs. parse_block block parsed_subs = Inr (parsed_subs @ es)))"
proof
  show "\<exists>parsed_subs. parse_srt srt_content = Inr parsed_subs"
    using parse_srt_shape [of srt_content] by blast
next
  show "\<exists>es. length es \<le> 1 \<and>
      (\<forall>parsed_subs. parse_block block parsed_subs = Inr (parsed_subs @ es))"
    using parse_block_shape [of block] by blast
qed

subsection \<open>The format of the timestamps\<close>



subsection \<open>No entry without text\<close>

text \<open>
  Claim C4. For every input string, every emitted entry has a non-empty \<^verbatim>\<open>text\<close>.
  A block whose text lines clean to the empty string (after the tags are deleted, the
  dash-space pairs removed and the result trimmed) appends nothing: the list collected
  so far is returned as it is. The text \<^verbatim>\<open><i></i>\<close> is such a case.
\<close>

theorem emitted_text_nonempty:
  "(parse_srt srt_content = Inr parsed_subs \<longrightarrow> (\<forall>e\<in>set parsed_subs. sub_text e \<noteq> [])) \<and>
   (clean_text (snd (find_time lines)) = [] \<longrightarrow> parse_lines lines acc = Inr acc)"
proof
  show "parse_srt srt_content = Inr parsed_subs \<longrightarrow> (\<forall>e\<in>set parsed_subs. sub_text e \<noteq> [])"
    using parse_srt_shape [of srt_content] by (auto simp: well_formed_def)
next
  show "clean_text (snd (find_time lines)) = [] \<longrightarrow> parse_lines lines acc = Inr acc"
  proof
    assume empty: "clean_text (snd (find_time lines)) = []"
    obtain tm tl where ft: "find_time lines = (tm, tl)" by (cases "find_time lines")
    show "parse_lines lines acc = Inr acc"
    proof (cases tm)
      case None
      then show ?thesis using ft by (simp add: parse_lines_def)
    next
      case (Some m)
      with ft find_time_groups [of lines m tl] have "length m = 3" by simp
      then show ?thesis using ft Some empty
        by (simp add: parse_lines_def group_def Let_def)
    qed
  qed
qed

theorem emitted_text_nonempty_witness:
  "parse_srt (lit ''1\<newline>00:00:01,000 --> 00:00:02,000\<newline><i></i>\<newline>\<newline>2\<newline>00:00:03,000 --> 00:00:04,000\<newline><b>Hi</b>'') =
     Inr [\<lparr>sub_start = (lit ''00:00:03,000''), sub_end = (lit ''00:00:04,000''), sub_text = (lit ''Hi'')\<rparr>] \<and>
   (lit ''Hi'') \<noteq> [] \<and>
   clean_text (snd (find_time [(lit ''1''), (lit ''00:00:01,000 --> 00:00:02,000''), (lit ''<i></i>'')])) = [] \<and>
   parse_lines [(lit ''1''), (lit ''00:00:01,000 --> 00:00:02,000''), (lit ''<i></i>'')] [] = Inr [] \<and>
   parse_srt (lit ''1\<newline>00:00:01,000 --> 00:00:02,000\<newline><i></i>'') = Inr []"
proof -
  let ?d = "(lit ''1\<newline>00:00:01,000 --> 00:00:02,000\<newline><i></i>\<newline>\<newline>2\<newline>00:00:03,000 --> 00:00:04,000\<newline><b>Hi</b>'')"
  let ?e = "\<lparr>sub_start = (lit ''00:00:03,000''), sub_end = (lit ''00:00:04,000''), sub_text = (lit ''Hi'')\<rparr>"
  let ?l = "[(lit ''1''), (lit ''00:00:01,000 --> 00:00:02,000''), (lit ''<i></i>'')]"
  have p: "parse_srt ?d = Inr [?e]" by code_simp
  have c: "clean_text (snd (find_time ?l)) = []" by code_simp
  have q: "parse_srt (lit ''1\<newline>00:00:01,000 --> 00:00:02,000\<newline><i></i>'') = Inr []"
    by code_simp
  from emitted_text_nonempty [of ?d "[?e]" ?l "[]"] p c
  have "sub_text ?e \<noteq> []" and "parse_lines ?l [] = Inr []" by simp_all
  with p c q show ?thesis by simp
qed

subsection \<open>Line endings\<close>

lemma replace_append_absent:
  assumes "old \<noteq> []" and "hd old \<notin> set x"
  shows "replace (x @ t) old new = x @ replace t old new"
  using assms(2)
proof (induction x)
  case Nil
  show ?case by simp
next
  case (Cons c cs)
  from assms(1) obtain o1 os where old: "old = o1 # os" by (cases old) auto
  with Cons.prems have "o1 \<noteq> c" by auto
  then have "\<not> prefix old (c # cs @ t)" using old by simp
  then show ?case using Cons assms(1) by (simp add: replace_miss)
qed

lemma normalize_no_cr: "0x0D \<notin> set (normalize_line_endings s)"
  by (auto simp: normalize_line_endings_def replace_char)

lemma normalize_absent: "0x0D \<notin> set s \<Longrightarrow> normalize_line_endings s = s"
  by (simp add: normalize_line_endings_def replace_absent)

lemma join_no_cr:
  "\<forall>l\<in>set ls. 0x0D \<notin> set l \<Longrightarrow> 0x0D \<notin> set (join [0x0A] ls)"
  by (induction "[0x0A::int]" ls rule: join.induct) auto

lemma crlf_join:
  "\<forall>l\<in>set ls. 0x0D \<notin> set l \<Longrightarrow>
   replace (join [0x0D, 0x0A] ls) [0x0D, 0x0A] [0x0A] = join [0x0A] ls"
proof (induction "[0x0D::int, 0x0A]" ls rule: join.induct)
  case 1
  show ?case by (simp add: replace_Nil)
next
  case (2 x)
  then show ?case by (simp add: replace_absent)
next
  case (3 x y ys)
  then show ?case by (simp add: replace_append_absent replace_hit)
qed

lemma cr_join:
  "\<forall>l\<in>set ls. 0x0D \<notin> set l \<Longrightarrow>
   replace (join [0x0D] ls) [0x0D] [0x0A] = join [0x0A] ls"
proof (induction "[0x0D::int]" ls rule: join.induct)
  case 1
  show ?case by (simp add: replace_Nil)
next
  case (2 x)
  then show ?case by (simp add: replace_absent)
next
  case (3 x y ys)
  then show ?case by (simp add: replace_append_absent replace_hit)
qed

lemma join_cr_head:
  "\<forall>l\<in>set ls. 0x0A \<notin> set l \<Longrightarrow> \<not> prefix [0x0A] (join [0x0D] ls)"
proof (cases ls)
  case Nil
  then show ?thesis by simp
next
  case (Cons x xs)
  assume "\<forall>l\<in>set ls. 0x0A \<notin> set l"
  with Cons have x: "0x0A \<notin> set x" by simp
  show ?thesis
  proof (cases xs)
    case Nil
    with Cons x show ?thesis by (cases x) auto
  next
    case (Cons y ys)
    with \<open>ls = x # xs\<close> x show ?thesis by (cases x) auto
  qed
qed

lemma cr_join_keeps:
  "\<forall>l\<in>set ls. 0x0D \<notin> set l \<and> 0x0A \<notin> set l \<Longrightarrow>
   replace (join [0x0D] ls) [0x0D, 0x0A] [0x0A] = join [0x0D] ls"
proof (induction "[0x0D::int]" ls rule: join.induct)
  case 1
  show ?case by (simp add: replace_Nil)
next
  case (2 x)
  then show ?case by (simp add: replace_absent)
next
  case (3 x y ys)
  then have "\<not> prefix [0x0A] (join [0x0D] (y # ys))"
    by (intro join_cr_head) simp
  then have "\<not> prefix [0x0D, 0x0A] (0x0D # join [0x0D] (y # ys))"
    by simp
  with 3 show ?case by (simp add: replace_append_absent replace_miss)
qed

text \<open>
  Claim C5. For every document, parsing it and parsing its copy with CRLF and CR
  rewritten to LF give the same result, and rewriting twice is rewriting once. The
  result does not depend on the convention either: the same lines (none containing CR or
  LF) joined by CRLF, by CR or by LF parse to the same list.
\<close>

theorem line_endings_normalized:
  "parse_srt (normalize_line_endings d) = parse_srt d \<and>
   normalize_line_endings (normalize_line_endings d) = normalize_line_endings d \<and>
   ((\<forall>l\<in>set ls. 0x0D \<notin> set l \<and> 0x0A \<notin> set l) \<longrightarrow>
      parse_srt (join [0x0D, 0x0A] ls) = parse_srt (join [0x0A] ls) \<and>
      parse_srt (join [0x0D] ls) = parse_srt (join [0x0A] ls))"
proof (intro conjI impI)
  show idem: "normalize_line_endings (normalize_line_endings d) = normalize_line_endings d"
    by (simp add: normalize_absent normalize_no_cr)
  then show "parse_srt (normalize_line_endings d) = parse_srt d"
    by (simp add: parse_srt_def)
next
  assume ls: "\<forall>l\<in>set ls. 0x0D \<notin> set l \<and> 0x0A \<notin> set l"
  then have cr: "\<forall>l\<in>set ls. 0x0D \<notin> set l" by simp
  have lf: "normalize_line_endings (join [0x0A] ls) = join [0x0A] ls"
    using cr by (simp add: normalize_absent join_no_cr)
  have "normalize_line_endings (join [0x0D, 0x0A] ls) = join [0x0A] ls"
    using cr by (simp add: normalize_line_endings_def crlf_join replace_absent join_no_cr)
  with lf show "parse_srt (join [0x0D, 0x0A] ls) = parse_srt (join [0x0A] ls)"
    by (simp add: parse_srt_def)
  have "normalize_line_endings (join [0x0D] ls) = join [0x0A] ls"
    using ls cr by (simp add: normalize_line_endings_def cr_join_keeps cr_join)
  with lf show "parse_srt (join [0x0D] ls) = parse_srt (join [0x0A] ls)"
    by (simp add: parse_srt_def)
qed

theorem line_endings_normalized_witness:
  "parse_srt (join [0x0D, 0x0A] [(lit ''1''), (lit ''00:00:01,000 --> 00:00:02,000''), (lit ''Hi'')]) =
     parse_srt (join [0x0A] [(lit ''1''), (lit ''00:00:01,000 --> 00:00:02,000''), (lit ''Hi'')]) \<and>
   parse_srt (join [0x0D] [(lit ''1''), (lit ''00:00:01,000 --> 00:00:02,000''), (lit ''Hi'')]) =
     parse_srt (join [0x0A] [(lit ''1''), (lit ''00:00:01,000 --> 00:00:02,000''), (lit ''Hi'')]) \<and>
   parse_srt (join [0x0A] [(lit ''1''), (lit ''00:00:01,000 --> 00:00:02,000''), (lit ''Hi'')]) =
     Inr [\<lparr>sub_start = (lit ''00:00:01,000''), sub_end = (lit ''00:00:02,000''), sub_text = (lit ''Hi'')\<rparr>]"
proof -
  let ?ls = "[(lit ''1''), (lit ''00:00:01,000 --> 00:00:02,000''), (lit ''Hi'')]"
  have h: "\<forall>l\<in>set ?ls. 0x0D \<notin> set l \<and> 0x0A \<notin> set l" by simp
  have p: "parse_srt (join [0x0A] ?ls) =
     Inr [\<lparr>sub_start = (lit ''00:00:01,000''), sub_end = (lit ''00:00:02,000''), sub_text = (lit ''Hi'')\<rparr>]"
    by code_simp
  from line_endings_normalized [of "[]" ?ls] h
  have "parse_srt (join [0x0D, 0x0A] ?ls) = parse_srt (join [0x0A] ?ls)"
    and "parse_srt (join [0x0D] ?ls) = parse_srt (join [0x0A] ?ls)"
    by blast+
  with p show ?thesis by blast
qed

subsection \<open>The scan for the timestamp line\<close>

lemma spaces_then_greedy:
  assumes "\<And>r. P r \<Longrightarrow> r \<noteq> [] \<and> \<not> isspace (hd r)"
  shows "spaces_then P s \<longleftrightarrow> P (dropWhile isspace s)"
proof (induction s)
  case Nil
  show ?case by simp
next
  case (Cons c cs)
  show ?case
  proof (cases "isspace c")
    case True
    then have "\<not> P (c # cs)" using assms [of "c # cs"] by auto
    then show ?thesis using True Cons by simp
  next
    case False
    then show ?thesis by simp
  qed
qed

lemma isdigit_not_space: "isdigit c \<Longrightarrow> \<not> isspace c"
  using isdigit_ranges [of c] by (auto simp: isspace_def)

lemma stamp_starts_with_digit:
  assumes "is_stamp (take 12 q)"
  shows "q \<noteq> [] \<and> \<not> isspace (hd q)"
proof (cases q)
  case Nil
  with assms show ?thesis by (simp add: is_stamp_def)
next
  case (Cons c cs)
  with assms have "isdigit c"
    by (simp add: is_stamp_def stamp_def numeral_eq_Suc)
  with Cons show ?thesis by (simp add: isdigit_not_space)
qed

lemma arrow_starts_with_dash:
  "prefix (lit ''-->'') r \<Longrightarrow> r \<noteq> [] \<and> \<not> isspace (hd r)"
  by (cases r) (auto simp: isspace_def)

lemma stamp_whole: "match_seq stamp s \<longleftrightarrow> is_stamp (take 12 s)"
proof
  assume "match_seq stamp s"
  then show "is_stamp (take 12 s)" by (rule stamp_prefix)
next
  assume "is_stamp (take 12 s)"
  then have "match_seq stamp (take 12 s @ drop 12 s)"
    unfolding is_stamp_def by (intro match_seq_append) simp
  then show "match_seq stamp s" by simp
qed

lemma match_at_pattern: "match_at s \<noteq> None \<longleftrightarrow> pattern_here s"
proof -
  have 1: "spaces_then (\<lambda>q. is_stamp (take 12 q)) t
      \<longleftrightarrow> is_stamp (take 12 (dropWhile isspace t))" for t
    by (rule spaces_then_greedy) (rule stamp_starts_with_digit)
  have 2: "spaces_then (\<lambda>r. prefix (lit ''-->'') r \<and> is_stamp (take 12 (dropWhile isspace (drop 3 r)))) t
      \<longleftrightarrow> prefix (lit ''-->'') (dropWhile isspace t) \<and>
          is_stamp (take 12 (dropWhile isspace (drop 3 (dropWhile isspace t))))" for t
    by (rule spaces_then_greedy) (simp add: arrow_starts_with_dash)
  show ?thesis
    by (simp add: match_at_def pattern_here_def Let_def 1 2 [simplified] stamp_whole)
qed

lemma search_matches: "search l \<noteq> None \<longleftrightarrow> matches_time_pattern l"
proof (induction l)
  case Nil
  show ?case using match_at_pattern [of "[]"] by simp
next
  case (Cons c cs)
  show ?case using match_at_pattern [of "c # cs"] Cons
    by (auto split: option.splits)
qed

lemma find_time_none:
  "\<forall>l\<in>set ls. search l = None \<Longrightarrow> find_time ls = (None, [])"
  by (induction ls) auto

lemma find_time_first:
  "i < length ls \<Longrightarrow> search (ls ! i) = Some m \<Longrightarrow> \<forall>j<i. search (ls ! j) = None \<Longrightarrow>
   find_time ls = (Some m, drop (Suc i) ls)"
proof (induction ls arbitrary: i)
  case Nil
  then show ?case by simp
next
  case (Cons l ls)
  show ?case
  proof (cases i)
    case 0
    with Cons.prems show ?thesis by simp
  next
    case (Suc k)
    with Cons.prems have "search l = None" by auto
    moreover have "find_time ls = (Some m, drop (Suc k) ls)"
    proof (rule Cons.IH)
      show "k < length ls" using Cons.prems Suc by simp
      show "search (ls ! k) = Some m" using Cons.prems Suc by simp
      show "\<forall>j<k. search (ls ! j) = None"
      proof (intro allI impI)
        fix j assume "j < k"
        then have "Suc j < i" using Suc by simp
        with Cons.prems(3) have "search ((l # ls) ! Suc j) = None" by blast
        then show "search (ls ! j) = None" by simp
      qed
    qed
    ultimately show ?thesis using Suc by simp
  qed
qed

text \<open>
  Claim C6. In a block of at least three lines, the timestamp line is the first line, in
  order, in which the pattern is found: two clock values \<^verbatim>\<open>HH:MM:SS\<close> of two digits
  per component, each with its separator (comma or period) and three digits, joined by
  the arrow with any whitespace around it. The lines after that line are the text of the
  block and the lines before it are dropped: the entry appended is built from the two
  groups of that line and from the lines after it. If no line matches, the block is
  skipped.
\<close>

theorem first_matching_line_is_timestamp:
  assumes "3 \<le> length lines"
  shows "(i < length lines \<and> matches_time_pattern (lines ! i) \<and>
          (\<forall>j<i. \<not> matches_time_pattern (lines ! j)) \<longrightarrow>
            (\<exists>m. search (lines ! i) = Some m \<and>
                 find_time lines = (Some m, drop (Suc i) lines) \<and>
                 parse_lines lines acc =
                   (if drop (Suc i) lines \<noteq> [] \<and> clean_text (drop (Suc i) lines) \<noteq> []
                    then Inr (acc @ [\<lparr>sub_start = replace (m ! 1) (lit ''.'') (lit '',''),
                                       sub_end = replace (m ! 2) (lit ''.'') (lit '',''),
                                       sub_text = clean_text (drop (Suc i) lines)\<rparr>])
                    else Inr acc))) \<and>
         ((\<forall>l\<in>set lines. \<not> matches_time_pattern l) \<longrightarrow>
            find_time lines = (None, []) \<and> parse_lines lines acc = Inr acc)"
proof (intro conjI impI)
  assume a: "i < length lines \<and> matches_time_pattern (lines ! i) \<and>
      (\<forall>j<i. \<not> matches_time_pattern (lines ! j))"
  then obtain m where m: "search (lines ! i) = Some m"
    using search_matches [of "lines ! i"] by auto
  from a have "\<forall>j<i. search (lines ! j) = None"
    using search_matches by blast
  with a m have ft: "find_time lines = (Some m, drop (Suc i) lines)"
    by (intro find_time_first) simp_all
  from search_groups [OF m] have "length m = 3" by simp
  then have "parse_lines lines acc =
      (if drop (Suc i) lines \<noteq> [] \<and> clean_text (drop (Suc i) lines) \<noteq> []
       then Inr (acc @ [\<lparr>sub_start = replace (m ! 1) (lit ''.'') (lit '',''),
                          sub_end = replace (m ! 2) (lit ''.'') (lit '',''),
                          sub_text = clean_text (drop (Suc i) lines)\<rparr>])
       else Inr acc)"
    using assms ft by (simp add: parse_lines_def group_def Let_def)
  with m ft show "\<exists>m. search (lines ! i) = Some m \<and>
      find_time lines = (Some m, drop (Suc i) lines) \<and>
      parse_lines lines acc =
        (if drop (Suc i) lines \<noteq> [] \<and> clean_text (drop (Suc i) lines) \<noteq> []
         then Inr (acc @ [\<lparr>sub_start = replace (m ! 1) (lit ''.'') (lit '',''),
                            sub_end = replace (m ! 2) (lit ''.'') (lit '',''),
                            sub_text = clean_text (drop (Suc i) lines)\<rparr>])
         else Inr acc)"
    by blast
next
  assume "\<forall>l\<in>set lines. \<not> matches_time_pattern l"
  then have "\<forall>l\<in>set lines. search l = None" using search_matches by blast
  then show "find_time lines = (None, [])" by (rule find_time_none)
  then show "parse_lines lines acc = Inr acc" by (simp add: parse_lines_def)
qed

theorem first_matching_line_is_timestamp_witness:
  "search (lit ''x 00:00:01,000  -->00:00:02.000 y'') =
     Some [(lit ''00:00:01,000  -->00:00:02.000''), (lit ''00:00:01,000''), (lit ''00:00:02.000'')] \<and>
   parse_lines [(lit ''junk''), (lit ''7''), (lit ''x 00:00:01,000  -->00:00:02.000 y''), (lit ''Hello''),
                (lit ''00:00:03,000 --> 00:00:04,000''), (lit ''world'')] [] =
     Inr [\<lparr>sub_start = (lit ''00:00:01,000''), sub_end = (lit ''00:00:02,000''),
           sub_text = (lit ''Hello 00:00:03,000 --> 00:00:04,000 world'')\<rparr>] \<and>
   find_time [(lit ''1''), (lit ''00:00:1,000 --> 00:00:02,000''), (lit ''Hi'')] = (None, []) \<and>
   parse_lines [(lit ''1''), (lit ''00:00:1,000 --> 00:00:02,000''), (lit ''Hi'')] [] = Inr []"
proof -
  let ?L = "[(lit ''junk''), (lit ''7''), (lit ''x 00:00:01,000  -->00:00:02.000 y''), (lit ''Hello''),
             (lit ''00:00:03,000 --> 00:00:04,000''), (lit ''world'')]"
  let ?M = "[(lit ''00:00:01,000  -->00:00:02.000''), (lit ''00:00:01,000''), (lit ''00:00:02.000'')]"
  let ?N = "[(lit ''1''), (lit ''00:00:1,000 --> 00:00:02,000''), (lit ''Hi'')]"
  have len: "3 \<le> length ?L" by simp
  have lenN: "3 \<le> length ?N" by simp
  have "\<not> matches_time_pattern (lit ''junk'')" by code_simp
  then have n0: "\<not> matches_time_pattern (?L ! 0)" by simp
  have "\<not> matches_time_pattern (lit ''7'')" by code_simp
  then have n1: "\<not> matches_time_pattern (?L ! 1)" by simp
  have "matches_time_pattern (lit ''x 00:00:01,000  -->00:00:02.000 y'')" by code_simp
  then have y2: "matches_time_pattern (?L ! 2)" by simp
  have before: "\<forall>j<2. \<not> matches_time_pattern (?L ! j)"
  proof (intro allI impI)
    fix j :: nat assume "j < 2"
    then have "j = 0 \<or> j = 1" by auto
    with n0 n1 show "\<not> matches_time_pattern (?L ! j)" by auto
  qed
  have s0: "search (lit ''x 00:00:01,000  -->00:00:02.000 y'') = Some ?M" by code_simp
  then have s: "search (?L ! 2) = Some ?M" by simp
  have "clean_text [(lit ''Hello''), (lit ''00:00:03,000 --> 00:00:04,000''), (lit ''world'')] =
      (lit ''Hello 00:00:03,000 --> 00:00:04,000 world'')"
    by code_simp
  then have c: "clean_text (drop (Suc 2) ?L) = (lit ''Hello 00:00:03,000 --> 00:00:04,000 world'')"
    by simp
  have "replace (lit ''00:00:01,000'') (lit ''.'') (lit '','') = (lit ''00:00:01,000'')" by code_simp
  then have r1: "replace (?M ! 1) (lit ''.'') (lit '','') = (lit ''00:00:01,000'')" by simp
  have "replace (lit ''00:00:02.000'') (lit ''.'') (lit '','') = (lit ''00:00:02,000'')" by code_simp
  then have r2: "replace (?M ! 2) (lit ''.'') (lit '','') = (lit ''00:00:02,000'')" by simp
  have hyp: "2 < length ?L \<and> matches_time_pattern (?L ! 2) \<and>
      (\<forall>j<2. \<not> matches_time_pattern (?L ! j))"
  proof (intro conjI)
    show "2 < length ?L" by simp
    show "matches_time_pattern (?L ! 2)" by (rule y2)
    show "\<forall>j<2. \<not> matches_time_pattern (?L ! j)" by (rule before)
  qed
  note found = mp [OF conjunct1 [OF first_matching_line_is_timestamp [OF len, of 2 "[]"]] hyp]
  then obtain m where m: "search (?L ! 2) = Some m"
    and pl: "parse_lines ?L [] =
      (if drop (Suc 2) ?L \<noteq> [] \<and> clean_text (drop (Suc 2) ?L) \<noteq> []
       then Inr ([] @ [\<lparr>sub_start = replace (m ! 1) (lit ''.'') (lit '',''),
                         sub_end = replace (m ! 2) (lit ''.'') (lit '',''),
                         sub_text = clean_text (drop (Suc 2) ?L)\<rparr>])
       else Inr [])"
    by (elim exE conjE)
  from m s have "m = ?M" by simp
  with pl have "parse_lines ?L [] =
      (if drop (Suc 2) ?L \<noteq> [] \<and> clean_text (drop (Suc 2) ?L) \<noteq> []
       then Inr ([] @ [\<lparr>sub_start = replace (?M ! 1) (lit ''.'') (lit '',''),
                         sub_end = replace (?M ! 2) (lit ''.'') (lit '',''),
                         sub_text = clean_text (drop (Suc 2) ?L)\<rparr>])
       else Inr [])"
    by (rule subst [where P = "\<lambda>m. parse_lines ?L [] =
      (if drop (Suc 2) ?L \<noteq> [] \<and> clean_text (drop (Suc 2) ?L) \<noteq> []
       then Inr ([] @ [\<lparr>sub_start = replace (m ! 1) (lit ''.'') (lit '',''),
                         sub_end = replace (m ! 2) (lit ''.'') (lit '',''),
                         sub_text = clean_text (drop (Suc 2) ?L)\<rparr>])
       else Inr [])", rotated])
  then have e: "parse_lines ?L [] =
     Inr [\<lparr>sub_start = (lit ''00:00:01,000''), sub_end = (lit ''00:00:02,000''),
           sub_text = (lit ''Hello 00:00:03,000 --> 00:00:04,000 world'')\<rparr>]"
    unfolding c r1 r2 by simp
  have none: "\<forall>l\<in>set ?N. \<not> matches_time_pattern l" by code_simp
  note skipped = mp [OF conjunct2 [OF first_matching_line_is_timestamp [OF lenN, of 0 "[]"]] none]
  then have "find_time ?N = (None, [])" and "parse_lines ?N [] = Inr []"
    by (rule conjunct1, rule conjunct2)
  with s0 e show ?thesis by simp
qed

subsection \<open>The removal of dash-space pairs\<close>

lemma replace_dash_space_around:
  "replace (a @ (lit ''- '') @ b) (lit ''- '') [] = replace a (lit ''- '') [] @ replace b (lit ''- '') []"
proof (induction "length a" arbitrary: a rule: less_induct)
  case less
  show ?case
  proof (cases a)
    case Nil
    then show ?thesis by (simp add: replace_hit replace_Nil)
  next
    case (Cons c cs)
    show ?thesis
    proof (cases "prefix (lit ''- '') (c # cs)")
      case True
      then obtain ds where cs: "c = cp (CHR ''-'')" "cs = cp (CHR '' '') # ds"
        by (cases cs) auto
      have "replace (ds @ (lit ''- '') @ b) (lit ''- '') [] = replace ds (lit ''- '') [] @ replace b (lit ''- '') []"
        by (rule less) (simp add: Cons cs)
      then show ?thesis using Cons cs by (simp add: replace_hit)
    next
      case False
      then have "\<not> prefix (lit ''- '') (c # cs @ (lit ''- '') @ b)"
        by (cases cs) auto
      moreover have "replace (cs @ (lit ''- '') @ b) (lit ''- '') [] = replace cs (lit ''- '') [] @ replace b (lit ''- '') []"
        by (rule less) (simp add: Cons)
      ultimately show ?thesis using Cons False by (simp add: replace_miss)
    qed
  qed
qed

text \<open>
  Claim C7, as amended. The text that reaches line 49 is the joined text with its tags
  deleted and its ends trimmed. Wherever that text has a dash followed by a space, at a
  line start or not, the pair is removed: the result is what the cleanup makes of the
  part before the pair followed by what it makes of the part after it. For the sole text
  line \<open>- Hello- there\<close> the emitted text is \<open>Hellothere\<close>.
\<close>

theorem dash_space_removed_anywhere:
  "(strip (sub_tags (join (lit '' '') text_lines)) = a @ (lit ''- '') @ b \<longrightarrow>
      clean_text text_lines = strip (replace a (lit ''- '') [] @ replace b (lit ''- '') [])) \<and>
   parse_srt (lit ''1\<newline>00:00:01,000 --> 00:00:02,000\<newline>- Hello- there'') =
     Inr [\<lparr>sub_start = (lit ''00:00:01,000''), sub_end = (lit ''00:00:02,000''), sub_text = (lit ''Hellothere'')\<rparr>]"
proof
  show "strip (sub_tags (join (lit '' '') text_lines)) = a @ (lit ''- '') @ b \<longrightarrow>
      clean_text text_lines = strip (replace a (lit ''- '') [] @ replace b (lit ''- '') [])"
  proof
    assume "strip (sub_tags (join (lit '' '') text_lines)) = a @ (lit ''- '') @ b"
    then have "clean_text text_lines = strip (replace (a @ (lit ''- '') @ b) (lit ''- '') [])"
      unfolding clean_text_def Let_def by (rule arg_cong)
    then show "clean_text text_lines = strip (replace a (lit ''- '') [] @ replace b (lit ''- '') [])"
      by (simp only: replace_dash_space_around)
  qed
next
  show "parse_srt (lit ''1\<newline>00:00:01,000 --> 00:00:02,000\<newline>- Hello- there'') =
     Inr [\<lparr>sub_start = (lit ''00:00:01,000''), sub_end = (lit ''00:00:02,000''), sub_text = (lit ''Hellothere'')\<rparr>]"
    by code_simp
qed

theorem dash_space_removed_anywhere_witness:
  "strip (sub_tags (join (lit '' '') [(lit ''Well- no, <i>- yes</i>'')])) = (lit ''Well'') @ (lit ''- '') @ (lit ''no, - yes'') \<and>
   clean_text [(lit ''Well- no, <i>- yes</i>'')] = (lit ''Wellno, yes'')"
proof -
  have h: "strip (sub_tags (join (lit '' '') [(lit ''Well- no, <i>- yes</i>'')])) =
      (lit ''Well'') @ (lit ''- '') @ (lit ''no, - yes'')"
    by code_simp
  have r: "strip (replace (lit ''Well'') (lit ''- '') [] @ replace (lit ''no, - yes'') (lit ''- '') []) = (lit ''Wellno, yes'')"
    by code_simp
  from dash_space_removed_anywhere [of "[(lit ''Well- no, <i>- yes</i>'')]" "(lit ''Well'')" "(lit ''no, - yes'')"] h
  have "clean_text [(lit ''Well- no, <i>- yes</i>'')] =
      strip (replace (lit ''Well'') (lit ''- '') [] @ replace (lit ''no, - yes'') (lit ''- '') [])"
    by blast
  with h r show ?thesis by simp
qed

text \<open>
  The claim as stated speaks of the joined text. There the pair can lose only its space:
  in \<open>a- <i></i>\<close> the tags go first, the trim of line 46 then takes the trailing
  space, and the dash has no space after it when line 49 runs.
\<close>

theorem dash_space_joined_text_counterexample:
  "join (lit '' '') [(lit ''a- <i></i>'')] = (lit ''a'') @ (lit ''- '') @ (lit ''<i></i>'') \<and>
   clean_text [(lit ''a- <i></i>'')] = (lit ''a-'') \<and>
   parse_srt (lit ''1\<newline>00:00:01,000 --> 00:00:02,000\<newline>a- <i></i>'') =
     Inr [\<lparr>sub_start = (lit ''00:00:01,000''), sub_end = (lit ''00:00:02,000''), sub_text = (lit ''a-'')\<rparr>]"
  by code_simp

subsection \<open>Trimming\<close>

lemma lstrip_suffix: "\<exists>pre. s = pre @ lstrip s"
  unfolding lstrip_def by (rule exI [of _ "takeWhile isspace s"]) simp

lemma rstrip_prefix: "\<exists>post. s = rstrip s @ post"
proof -
  have "rstrip s @ rev (takeWhile isspace (rev s)) =
      rev (takeWhile isspace (rev s) @ dropWhile isspace (rev s))"
    by (simp only: rstrip_def rev_append)
  also have "\<dots> = s" by (simp only: takeWhile_dropWhile_id rev_rev_ident)
  finally have "s = rstrip s @ rev (takeWhile isspace (rev s))" by (rule sym)
  then show ?thesis ..
qed

lemma strip_infix: "\<exists>pre post. s = pre @ strip s @ post"
proof -
  obtain pre where 1: "s = pre @ lstrip s" using lstrip_suffix by blast
  obtain post where 2: "lstrip s = rstrip (lstrip s) @ post" using rstrip_prefix by blast
  from 1 2 have "s = pre @ strip s @ post" by (simp add: strip_def)
  then show ?thesis by blast
qed

lemma lstrip_fixed: "s = [] \<or> \<not> isspace (hd s) \<Longrightarrow> lstrip s = s"
  by (cases s) (auto simp: lstrip_def)

lemma rstrip_fixed: "s = [] \<or> \<not> isspace (last s) \<Longrightarrow> rstrip s = s"
proof (cases "rev s")
  case Nil
  then show ?thesis by (simp add: rstrip_def)
next
  case (Cons c cs)
  assume "s = [] \<or> \<not> isspace (last s)"
  with Cons have "\<not> isspace c" by (auto simp: last_rev [symmetric] simp del: last_rev)
  with Cons have "dropWhile isspace (rev s) = rev s" by simp
  then show ?thesis by (simp add: rstrip_def)
qed

lemma strip_fixed:
  "s = [] \<or> (\<not> isspace (hd s) \<and> \<not> isspace (last s)) \<Longrightarrow> strip s = s"
  by (auto simp: strip_def lstrip_fixed rstrip_fixed)

lemma lstrip_head: "lstrip s = [] \<or> \<not> isspace (hd (lstrip s))"
  unfolding lstrip_def using hd_dropWhile [of isspace s] by blast

lemma rstrip_last: "rstrip s = [] \<or> \<not> isspace (last (rstrip s))"
proof (cases "dropWhile isspace (rev s) = []")
  case True
  then show ?thesis by (simp add: rstrip_def)
next
  case False
  then have "\<not> isspace (hd (dropWhile isspace (rev s)))" by (rule hd_dropWhile)
  with False show ?thesis by (simp add: rstrip_def last_rev)
qed

lemma rstrip_head: "rstrip s \<noteq> [] \<Longrightarrow> hd (rstrip s) = hd s"
proof -
  assume ne: "rstrip s \<noteq> []"
  obtain post where "s = rstrip s @ post" using rstrip_prefix by blast
  then have "hd s = hd (rstrip s @ post)" by simp
  with ne show ?thesis by simp
qed

lemma strip_ends: "strip s = [] \<or> (\<not> isspace (hd (strip s)) \<and> \<not> isspace (last (strip s)))"
proof (cases "strip s = []")
  case True
  then show ?thesis by simp
next
  case False
  then have ne: "rstrip (lstrip s) \<noteq> []" by (simp add: strip_def)
  then have "lstrip s \<noteq> []" by (auto simp: rstrip_def)
  with lstrip_head [of s] have "\<not> isspace (hd (lstrip s))" by simp
  with rstrip_head [OF ne] have "\<not> isspace (hd (strip s))" by (simp add: strip_def)
  moreover from rstrip_last [of "lstrip s"] ne have "\<not> isspace (last (strip s))"
    by (simp add: strip_def)
  ultimately show ?thesis by simp
qed

lemma strip_idem: "strip (strip s) = strip s"
  by (rule strip_fixed) (rule strip_ends)

subsection \<open>Text without tags and without dash-space pairs\<close>

lemma tag_body_runs:
  "tag_body cs \<longleftrightarrow>
     takeWhile (\<lambda>x. x \<noteq> cp (CHR ''>'')) cs \<noteq> [] \<and> dropWhile (\<lambda>x. x \<noteq> cp (CHR ''>'')) cs \<noteq> []"
proof (induction cs)
  case Nil
  show ?case by simp
next
  case (Cons c cs)
  show ?case
  proof (cases cs)
    case Nil
    then show ?thesis by simp
  next
    case (Cons d ds)
    with Cons.IH show ?thesis by auto
  qed
qed

lemma tag_at_tag_body: "tag_at (c # cs) \<noteq> None \<longleftrightarrow> c = cp (CHR ''<'') \<and> tag_body cs"
  by (simp add: tag_at_def Let_def tag_body_runs)

lemma sub_tags_no_tag: "\<not> has_tag s \<Longrightarrow> sub_tags s = s"
proof (induction s)
  case Nil
  show ?case by (simp add: sub_tags.simps)
next
  case (Cons c cs)
  then have "tag_at (c # cs) = None" using tag_at_tag_body [of c cs] by auto
  moreover from Cons have "sub_tags cs = cs" by simp
  ultimately show ?case by (subst sub_tags.simps) simp
qed

lemma replace_no_dash_space: "\<not> has_dash_space s \<Longrightarrow> replace s (lit ''- '') [] = s"
proof (induction s rule: has_dash_space.induct)
  case (1 a b cs)
  then have "\<not> prefix (lit ''- '') (a # b # cs)" by auto
  with 1 show ?case by (simp add: replace_miss)
qed (simp_all add: replace_miss replace_Nil)

lemma has_dash_space_append_right: "has_dash_space s \<Longrightarrow> has_dash_space (s @ t)"
  by (induction s rule: has_dash_space.induct) auto

lemma has_dash_space_Cons: "has_dash_space t \<Longrightarrow> has_dash_space (c # t)"
  by (cases t) auto

lemma has_dash_space_append_left: "has_dash_space t \<Longrightarrow> has_dash_space (x @ t)"
  by (induction x) (auto intro: has_dash_space_Cons)

lemma has_dash_space_strip: "has_dash_space (strip s) \<Longrightarrow> has_dash_space s"
proof -
  assume h: "has_dash_space (strip s)"
  obtain pre post where s: "s = pre @ strip s @ post" using strip_infix by blast
  from h have "has_dash_space (pre @ strip s @ post)"
    by (intro has_dash_space_append_left has_dash_space_append_right)
  with s show ?thesis by simp
qed

text \<open>
  Claim C8, as amended. When the joined text (the text lines joined with single spaces)
  has no tag and no dash followed by a space, the emitted text is the joined text with
  the whitespace at its two ends trimmed.
\<close>

theorem plain_text_only_trimmed:
  assumes "\<not> has_tag (join (lit '' '') text_lines)"
    and "\<not> has_dash_space (join (lit '' '') text_lines)"
  shows "clean_text text_lines = strip (join (lit '' '') text_lines)"
proof -
  let ?t = "join (lit '' '') text_lines"
  have "sub_tags ?t = ?t" using assms(1) by (rule sub_tags_no_tag)
  moreover have "\<not> has_dash_space (strip ?t)"
    using assms(2) has_dash_space_strip by blast
  then have "replace (strip ?t) (lit ''- '') [] = strip ?t" by (rule replace_no_dash_space)
  ultimately show ?thesis by (simp add: clean_text_def Let_def strip_idem)
qed

theorem plain_text_only_trimmed_witness:
  "\<not> has_tag (join (lit '' '') [(lit ''  a <> b''), (lit ''well-known > c -'')]) \<and>
   \<not> has_dash_space (join (lit '' '') [(lit ''  a <> b''), (lit ''well-known > c -'')]) \<and>
   clean_text [(lit ''  a <> b''), (lit ''well-known > c -'')] = (lit ''a <> b well-known > c -'')"
proof -
  have 1: "\<not> has_tag (join (lit '' '') [(lit ''  a <> b''), (lit ''well-known > c -'')])" by code_simp
  have 2: "\<not> has_dash_space (join (lit '' '') [(lit ''  a <> b''), (lit ''well-known > c -'')])" by code_simp
  have 3: "strip (join (lit '' '') [(lit ''  a <> b''), (lit ''well-known > c -'')]) = (lit ''a <> b well-known > c -'')"
    by code_simp
  from plain_text_only_trimmed [OF 1 2] 3 1 2 show ?thesis by simp
qed

text \<open>
  The claim as stated puts the two conditions on the text lines and promises the joined
  text itself. Two lines that meet the conditions one by one can form a dash-space pair
  where they are joined, and leading whitespace of the first text line is trimmed.
\<close>

theorem plain_text_unchanged_counterexample:
  "\<not> has_tag (lit ''a-'') \<and> \<not> has_tag (lit ''b'') \<and> \<not> has_dash_space (lit ''a-'') \<and> \<not> has_dash_space (lit ''b'') \<and>
   join (lit '' '') [(lit ''a-''), (lit ''b'')] = (lit ''a- b'') \<and>
   parse_srt (lit ''1\<newline>00:00:01,000 --> 00:00:02,000\<newline>a-\<newline>b'') =
     Inr [\<lparr>sub_start = (lit ''00:00:01,000''), sub_end = (lit ''00:00:02,000''), sub_text = (lit ''ab'')\<rparr>] \<and>
   \<not> has_tag (lit ''  Hi'') \<and> \<not> has_dash_space (lit ''  Hi'') \<and>
   parse_srt (lit ''1\<newline>00:00:01,000 --> 00:00:02,000\<newline>  Hi'') =
     Inr [\<lparr>sub_start = (lit ''00:00:01,000''), sub_end = (lit ''00:00:02,000''), sub_text = (lit ''Hi'')\<rparr>]"
  by code_simp

subsection \<open>Splitting\<close>

lemma split_at_Nil: "split_at sep cur [] = [cur]"
  by (simp add: split_at.simps)

lemma split_at_hit:
  "sep \<noteq> [] \<Longrightarrow> prefix sep (c # cs) \<Longrightarrow>
   split_at sep cur (c # cs) = cur # split_at sep [] (drop (length sep) (c # cs))"
  by (subst split_at.simps) simp

lemma split_at_miss:
  "sep \<noteq> [] \<Longrightarrow> \<not> prefix sep (c # cs) \<Longrightarrow>
   split_at sep cur (c # cs) = split_at sep (cur @ [c]) cs"
  by (subst split_at.simps) simp

lemma split_blocks_whole:
  "\<not> has_blank_line b \<Longrightarrow> split_at [0x0A, 0x0A] cur b = [cur @ b]"
proof (induction b arbitrary: cur)
  case Nil
  show ?case by (simp add: split_at_Nil)
next
  case (Cons c cs)
  then have "\<not> prefix [0x0A, 0x0A] (c # cs)" by (cases cs) auto
  moreover from Cons.prems have "\<not> has_blank_line cs" by (cases cs) auto
  ultimately show ?case using Cons.IH [of "cur @ [c]"] by (simp add: split_at_miss)
qed



lemma join_hd: "bs \<noteq> [] \<Longrightarrow> hd bs \<noteq> [] \<Longrightarrow> hd (join sep bs) = hd (hd bs)"
  by (induction sep bs rule: join.induct) auto

lemma join_nonempty_last: "bs \<noteq> [] \<Longrightarrow> last bs \<noteq> [] \<Longrightarrow> join sep bs \<noteq> []"
  by (induction sep bs rule: join.induct) auto

lemma join_last: "bs \<noteq> [] \<Longrightarrow> last bs \<noteq> [] \<Longrightarrow> last (join sep bs) = last (last bs)"
proof (induction sep bs rule: join.induct)
  case (1 sep)
  then show ?case by simp
next
  case (2 sep x)
  then show ?case by simp
next
  case (3 sep x y ys)
  then have "join sep (y # ys) \<noteq> []" by (intro join_nonempty_last) simp_all
  with 3 show ?case by simp
qed

lemma join_nonempty: "bs \<noteq> [] \<Longrightarrow> hd bs \<noteq> [] \<Longrightarrow> join sep bs \<noteq> []"
  by (induction sep bs rule: join.induct) auto

lemma join_set: "set (join sep bs) \<subseteq> set sep \<union> \<Union> (set ` set bs)"
  by (induction sep bs rule: join.induct) auto


subsection \<open>The order of the entries\<close>





subsection \<open>Lines of whitespace inside a block\<close>

lemma split_lines_whole: "0x0A \<notin> set x \<Longrightarrow> split_at [0x0A] cur x = [cur @ x]"
proof (induction x arbitrary: cur)
  case Nil
  show ?case by (simp add: split_at_Nil)
next
  case (Cons c cs)
  then have "\<not> prefix [0x0A] (c # cs)" by auto
  with Cons show ?case using Cons.IH [of "cur @ [c]"] by (simp add: split_at_miss)
qed

lemma split_lines_first:
  "0x0A \<notin> set x \<Longrightarrow>
   split_at [0x0A] cur (x @ [0x0A] @ rest) = (cur @ x) # split_at [0x0A] [] rest"
proof (induction x arbitrary: cur)
  case Nil
  show ?case by (simp add: split_at_hit)
next
  case (Cons c cs)
  then have "\<not> prefix [0x0A] (c # cs @ [0x0A] @ rest)" by auto
  with Cons show ?case using Cons.IH [of "cur @ [c]"] by (simp add: split_at_miss)
qed

lemma split_join_lines:
  "ls \<noteq> [] \<Longrightarrow> \<forall>l\<in>set ls. 0x0A \<notin> set l \<Longrightarrow>
   split_at [0x0A] [] (join [0x0A] ls) = ls"
proof (induction "[0x0A::int]" ls rule: join.induct)
  case 1
  then show ?case by simp
next
  case (2 x)
  then show ?case by (simp add: split_lines_whole)
next
  case (3 x y ys)
  then have "split_at [0x0A] [] (join [0x0A] (y # ys)) = y # ys" by simp
  moreover from 3 have "0x0A \<notin> set x" by simp
  ultimately show ?case
    using split_lines_first [of x "[]" "join [0x0A] (y # ys)"] by simp
qed

lemma blank_line_append: "0x0A \<notin> set x \<Longrightarrow> has_blank_line (x @ t) = has_blank_line t"
proof (induction x)
  case Nil
  show ?case by simp
next
  case (Cons c cs)
  then have "has_blank_line (c # cs @ t) = has_blank_line (cs @ t)"
    by (cases "cs @ t") auto
  with Cons show ?case by simp
qed

lemma join_lines_no_blank:
  "\<forall>l\<in>set ls. l \<noteq> [] \<and> 0x0A \<notin> set l \<Longrightarrow> \<not> has_blank_line (join [0x0A] ls)"
proof (induction "[0x0A::int]" ls rule: join.induct)
  case 1
  show ?case by simp
next
  case (2 x)
  then show ?case using blank_line_append [of x "[]"] by simp
next
  case (3 x y ys)
  let ?j = "join [0x0A] (y # ys)"
  from 3 have y: "y \<noteq> []" "0x0A \<notin> set y" by simp_all
  then have "hd ?j = hd y" by (simp add: join_hd)
  with y have hd: "hd ?j \<noteq> 0x0A" by (cases y) auto
  from y have ne: "?j \<noteq> []" by (simp add: join_nonempty)
  from 3 have "\<not> has_blank_line ?j" by simp
  with hd ne have "\<not> has_blank_line (0x0A # ?j)" by (cases ?j) auto
  moreover from 3 have "0x0A \<notin> set x" by simp
  ultimately show ?case using blank_line_append [of x "0x0A # ?j"] by simp
qed

text \<open>
  Claim C10, as amended. Take a block that begins and ends with a character that is not
  whitespace, as every block does once it is trimmed (line 21), and in it a line \<open>w\<close>
  of spaces and tabs only, with lines before it and after it. The line does not separate
  blocks: the document is one block, \<open>w\<close> is one of its lines, it counts in
  \<^verbatim>\<open>len(lines)\<close>, and the block is processed with \<open>w\<close> among its lines like any other
  line.
\<close>

theorem whitespace_line_stays_in_block:
  assumes "w \<noteq> []" and "set w \<subseteq> {cp (CHR '' ''), 0x09}"
    and "\<forall>l\<in>set (pre @ post). l \<noteq> [] \<and> 0x0A \<notin> set l \<and> 0x0D \<notin> set l"
    and "pre \<noteq> []" and "\<not> isspace (hd (hd pre))"
    and "post \<noteq> []" and "\<not> isspace (last (last post))"
  shows "split (strip (normalize_line_endings (join [0x0A] (pre @ [w] @ post))))
           [0x0A, 0x0A] = Inr [join [0x0A] (pre @ [w] @ post)] \<and>
         split (strip (join [0x0A] (pre @ [w] @ post))) [0x0A] =
           Inr (pre @ [w] @ post) \<and>
         parse_srt (join [0x0A] (pre @ [w] @ post)) = parse_lines (pre @ [w] @ post) []"
proof -
  let ?ls = "pre @ [w] @ post"
  let ?d = "join [0x0A] ?ls"
  have w: "0x0A \<notin> set w" "0x0D \<notin> set w" using assms(2) by auto
  with assms(1,3) have all: "\<forall>l\<in>set ?ls. l \<noteq> [] \<and> 0x0A \<notin> set l \<and> 0x0D \<notin> set l"
    by auto
  have ne: "?ls \<noteq> []" by simp
  have hdl: "hd ?ls = hd pre" using assms(4) by simp
  have lastl: "last ?ls = last post" using assms(6) by simp
  have "hd pre \<noteq> []" "last post \<noteq> []" using assms(3,4,6) by auto
  then have "hd ?d = hd (hd pre)" "last ?d = last (last post)"
    using join_hd [OF ne, of "[0x0A]"] join_last [OF ne, of "[0x0A]"] hdl lastl
    by simp_all
  then have "strip ?d = ?d" using assms(5,7) by (simp add: strip_fixed)
  moreover have "0x0D \<notin> set ?d"
    using join_set [of "[0x0A]" ?ls] all by auto
  then have "normalize_line_endings ?d = ?d" by (rule normalize_absent)
  moreover have "\<not> has_blank_line ?d" using all by (intro join_lines_no_blank) simp
  then have "split_at [0x0A, 0x0A] [] ?d = [?d]"
    using split_blocks_whole [of ?d "[]"] by simp
  moreover have "split_at [0x0A] [] ?d = ?ls"
    using all by (intro split_join_lines ne) simp
  ultimately show ?thesis
    by (simp add: parse_srt_def parse_block_def split_nonempty_sep split: sum.splits)
qed

theorem whitespace_line_stays_in_block_witness:
  "split (strip (join [0x0A] [(lit ''00:00:01,000 --> 00:00:02,000''), [cp (CHR '' ''), 0x09], (lit ''Hi'')]))
     [0x0A] = Inr [(lit ''00:00:01,000 --> 00:00:02,000''), [cp (CHR '' ''), 0x09], (lit ''Hi'')] \<and>
   parse_srt (join [0x0A] [(lit ''00:00:01,000 --> 00:00:02,000''), [cp (CHR '' ''), 0x09], (lit ''Hi'')]) =
     Inr [\<lparr>sub_start = (lit ''00:00:01,000''), sub_end = (lit ''00:00:02,000''), sub_text = (lit ''Hi'')\<rparr>] \<and>
   parse_srt (join [0x0A] [(lit ''1''), (lit ''00:00:01,000 --> 00:00:02,000''), (lit ''Hello''), (lit ''  ''), (lit ''world'')]) =
     Inr [\<lparr>sub_start = (lit ''00:00:01,000''), sub_end = (lit ''00:00:02,000''),
           sub_text = (lit ''Hello    world'')\<rparr>]"
proof -
  define T where "T = (lit ''00:00:01,000 --> 00:00:02,000'')"
  define W where "W = [cp (CHR '' ''), 0x09]"
  have w: "W \<noteq> []" "set W \<subseteq> {cp (CHR '' ''), 0x09}" by (simp_all add: W_def)
  have l1: "\<forall>l\<in>set ([T] @ [(lit ''Hi'')]). l \<noteq> [] \<and> 0x0A \<notin> set l \<and> 0x0D \<notin> set l"
    by (simp add: T_def)
  have e1: "[T] \<noteq> []" "[(lit ''Hi'')] \<noteq> []" by simp_all
  have h1: "\<not> isspace (hd (hd [T]))" by (simp add: T_def isspace_def)
  have t1: "\<not> isspace (last (last [(lit ''Hi'')]))" by (simp add: isspace_def)
  note a = whitespace_line_stays_in_block [OF w l1 e1(1) h1 e1(2) t1]
  have p1: "parse_lines ([T] @ [W] @ [(lit ''Hi'')]) [] =
      Inr [\<lparr>sub_start = (lit ''00:00:01,000''), sub_end = (lit ''00:00:02,000''), sub_text = (lit ''Hi'')\<rparr>]"
    unfolding T_def W_def by code_simp
  have l2: "\<forall>l\<in>set ([(lit ''1''), T, (lit ''Hello'')] @ [(lit ''world'')]).
      l \<noteq> [] \<and> 0x0A \<notin> set l \<and> 0x0D \<notin> set l"
    by (simp add: T_def)
  have w2: "(lit ''  '') \<noteq> []" "set (lit ''  '') \<subseteq> {cp (CHR '' ''), 0x09}" by simp_all
  have e2: "[(lit ''1''), T, (lit ''Hello'')] \<noteq> []" "[(lit ''world'')] \<noteq> []" by simp_all
  have h2: "\<not> isspace (hd (hd [(lit ''1''), T, (lit ''Hello'')]))" by (simp add: isspace_def)
  have t2: "\<not> isspace (last (last [(lit ''world'')]))" by (simp add: isspace_def)
  note b = whitespace_line_stays_in_block [OF w2 l2 e2(1) h2 e2(2) t2]
  have p2: "parse_lines ([(lit ''1''), T, (lit ''Hello'')] @ [(lit ''  '')] @ [(lit ''world'')]) [] =
      Inr [\<lparr>sub_start = (lit ''00:00:01,000''), sub_end = (lit ''00:00:02,000''),
            sub_text = (lit ''Hello    world'')\<rparr>]"
    unfolding T_def by code_simp
  from a p1 have "split (strip (join [0x0A] ([T] @ [W] @ [(lit ''Hi'')]))) [0x0A] =
      Inr ([T] @ [W] @ [(lit ''Hi'')])"
    and "parse_srt (join [0x0A] ([T] @ [W] @ [(lit ''Hi'')])) =
      Inr [\<lparr>sub_start = (lit ''00:00:01,000''), sub_end = (lit ''00:00:02,000''), sub_text = (lit ''Hi'')\<rparr>]"
    by simp_all
  moreover from b p2 have "parse_srt (join [0x0A] ([(lit ''1''), T, (lit ''Hello'')] @ [(lit ''  '')] @ [(lit ''world'')])) =
      Inr [\<lparr>sub_start = (lit ''00:00:01,000''), sub_end = (lit ''00:00:02,000''),
            sub_text = (lit ''Hello    world'')\<rparr>]"
    by simp
  ultimately show ?thesis unfolding T_def W_def by simp
qed

text \<open>
  The claim as stated covers every line of spaces and tabs. One that is the last line of
  its block is removed by the trim of line 21 together with the line feed before it, so
  it does not count: the block below has three lines in the document and two when its
  lines are counted, and it is skipped, although the same three lines would give an
  entry.
\<close>

theorem whitespace_last_line_counterexample:
  "split (strip (lit ''00:00:01,000 --> 00:00:02,000\<newline>Hi\<newline>  '')) [0x0A] =
     Inr [(lit ''00:00:01,000 --> 00:00:02,000''), (lit ''Hi'')] \<and>
   parse_srt (lit ''00:00:01,000 --> 00:00:02,000\<newline>Hi\<newline>  '') = Inr [] \<and>
   parse_lines [(lit ''00:00:01,000 --> 00:00:02,000''), (lit ''Hi''), (lit ''  '')] [] =
     Inr [\<lparr>sub_start = (lit ''00:00:01,000''), sub_end = (lit ''00:00:02,000''), sub_text = (lit ''Hi'')\<rparr>]"
  by code_simp

end
